theory Spec2Isabelle
  imports Complex_Main "HOL-Library.Word" "HOL-Library.Multiset" "HOL-Library.List_Lexorder"
begin

unbundle bit_operations_syntax

section \<open>PRISM: colour-stratified point cloud sampling\<close>

text \<open>
  A shallow embedding of \<^verbatim>\<open>prism_sampling\<close> of \<^verbatim>\<open>PRISM.py\<close>.

  A finite 64-bit floating point number is the real number it denotes; a value that is
  not finite (\<^verbatim>\<open>inf\<close>, \<^verbatim>\<open>nan\<close>, which numpy produces with a warning and without
  raising) is \<open>None\<close>. An arithmetic operation on floats computes the exact result and
  rounds it to the format. The quantised colours are 32-bit machine integers, and the
  composite key of a point is the 12 bytes of its three integers as they lie in memory
  on a little-endian machine.

  Three things that the platform and the libraries decide are parameters of the model:
  the rounding \<open>fl\<close> of an exact result to a float, which is \<open>binary64\<close> below on
  every machine numpy runs on; the content of \<^verbatim>\<open>shuffled_indices\<close> after
  \<^verbatim>\<open>np.random.shuffle\<close>, which the state of the process-wide random generator
  determines; and the function \<^verbatim>\<open>np.argsort\<close>, whose order among equal keys numpy
  leaves open (its default sort is not stable).
\<close>

subsection \<open>Point clouds\<close>

type_synonym vec3 = "real \<times> real \<times> real"

record point_cloud =
  points :: "vec3 list"
  colors :: "vec3 list"
  normals :: "vec3 list"

text \<open>Open3D: a cloud has normals when it has points and as many normals as points.\<close>

definition has_normals :: "point_cloud \<Rightarrow> bool" where
  "has_normals pcd \<longleftrightarrow> 0 < length (points pcd) \<and> length (normals pcd) = length (points pcd)"

datatype error = IndexError

subsection \<open>numpy indexing\<close>

text \<open>\<^verbatim>\<open>xs[idx]\<close> with an integer array: IndexError when an index is out of bounds.\<close>

definition gather :: "'a list \<Rightarrow> nat list \<Rightarrow> error + 'a list" where
  "gather xs idx = (if \<forall>i \<in> set idx. i < length xs then Inr (map (\<lambda>i. xs ! i) idx) else Inl IndexError)"

text \<open>\<^verbatim>\<open>xs[mask]\<close> with a boolean array: IndexError when the lengths differ.\<close>

definition mask_select :: "'a list \<Rightarrow> bool list \<Rightarrow> error + 'a list" where
  "mask_select xs keep =
     (if length keep = length xs then Inr (map fst (filter snd (zip xs keep))) else Inl IndexError)"

subsection \<open>Floating point numbers\<close>

text \<open>\<^verbatim>\<open>round()\<close> of numpy rounds a half to the even neighbour.\<close>

definition np_round :: "real \<Rightarrow> int" where
  "np_round x =
     (let f = \<lfloor>x\<rfloor>; d = x - of_int f
      in if d < 1 / 2 then f else if 1 / 2 < d then f + 1 else if even f then f else f + 1)"

text \<open>
  The rounding of IEEE 754 to the 64-bit format, to the nearest float and to the even one
  of two nearest. The floats with exponent \<open>e\<close> are the multiples of \<open>2\<^sup>e\<^sup>-\<^sup>5\<^sup>2\<close> from
  \<open>2\<^sup>e\<close> to \<open>2\<^sup>e\<^sup>+\<^sup>1\<close>; the least exponent is \<open>-1022\<close>, which the numbers below
  \<open>2\<^sup>-\<^sup>1\<^sup>0\<^sup>2\<^sup>2\<close> share, and a result of \<open>2\<^sup>1\<^sup>0\<^sup>2\<^sup>4\<close> or more is an infinity.
\<close>

definition pow2 :: "int \<Rightarrow> real" where
  "pow2 e = (if 0 \<le> e then 2 ^ nat e else 1 / 2 ^ nat (- e))"

function exponent_up :: "int \<Rightarrow> real \<Rightarrow> int" where
  "exponent_up e a = (if 1024 \<le> e \<or> a < pow2 (e + 1) then e else exponent_up (e + 1) a)"
  by pat_completeness auto
termination by (relation "measure (\<lambda>(e, a). nat (1024 - e))") auto

function exponent_down :: "int \<Rightarrow> real \<Rightarrow> int" where
  "exponent_down e a = (if e \<le> - 1022 \<or> pow2 e \<le> a then e else exponent_down (e - 1) a)"
  by pat_completeness auto
termination by (relation "measure (\<lambda>(e, a). nat (e + 1022))") auto

definition exponent :: "real \<Rightarrow> int" where
  "exponent a = (if 1 \<le> a then exponent_up 0 a else exponent_down 0 a)"

definition binary64 :: "real \<Rightarrow> real option" where
  "binary64 x =
     (if x = 0 then Some 0
      else
        let ulp = pow2 (exponent \<bar>x\<bar> - 52);
            y = of_int (np_round (x / ulp)) * ulp
        in if 1024 \<le> exponent \<bar>y\<bar> then None else Some y)"

text \<open>
  The operations of numpy on floats, with the rounding \<open>fl\<close>. A value that is not finite
  stays so under an addition of, a multiplication by and a division by a finite number;
  a division of a finite number by zero gives \<^verbatim>\<open>inf\<close> or \<^verbatim>\<open>nan\<close>, no exception.
\<close>

definition np_add :: "(real \<Rightarrow> real option) \<Rightarrow> real option \<Rightarrow> real \<Rightarrow> real option" where
  "np_add fl x y = (case x of None \<Rightarrow> None | Some v \<Rightarrow> fl (v + y))"

definition np_mul :: "(real \<Rightarrow> real option) \<Rightarrow> real option \<Rightarrow> real \<Rightarrow> real option" where
  "np_mul fl x y = (case x of None \<Rightarrow> None | Some v \<Rightarrow> fl (v * y))"

definition np_div :: "(real \<Rightarrow> real option) \<Rightarrow> real option \<Rightarrow> real \<Rightarrow> real option" where
  "np_div fl x y = (case x of None \<Rightarrow> None | Some v \<Rightarrow> if y = 0 then None else fl (v / y))"

subsection \<open>Colour transformation and quantisation\<close>

text \<open>
  Line 20: the sum of the three components, accumulated from left to right, plus the
  float that the literal \<^verbatim>\<open>1e-6\<close> denotes. The sum of finite numbers is finite or, on
  overflow, an infinity (\<open>None\<close>), never \<^verbatim>\<open>nan\<close>.
\<close>

definition sum_colors :: "(real \<Rightarrow> real option) \<Rightarrow> vec3 \<Rightarrow> real option" where
  "sum_colors fl c =
     (case c of (r, g, b) \<Rightarrow>
        (case fl (1 / 1000000) of
           None \<Rightarrow> None
         | Some eps \<Rightarrow> np_add fl (np_add fl (fl (r + g)) b) eps))"

text \<open>Line 21: a finite number divided by an infinity is zero.\<close>

definition normalized_colors ::
  "(real \<Rightarrow> real option) \<Rightarrow> vec3 \<Rightarrow> real option \<times> real option \<times> real option" where
  "normalized_colors fl c =
     (case c of (r, g, b) \<Rightarrow>
        (case sum_colors fl c of
           None \<Rightarrow> (Some 0, Some 0, Some 0)
         | Some s \<Rightarrow> (np_div fl (Some r) s, np_div fl (Some g) s, np_div fl (Some b) s)))"

definition colors_to_bin ::
  "(real \<Rightarrow> real option) \<Rightarrow> bool \<Rightarrow> vec3 \<Rightarrow> real option \<times> real option \<times> real option" where
  "colors_to_bin fl use_chromaticity c =
     (if use_chromaticity then
        (case normalized_colors fl c of
           (x, y, z) \<Rightarrow> (np_mul fl x 255, np_mul fl y 255, np_mul fl z 255))
      else
        (case c of (r, g, b) \<Rightarrow>
           (np_mul fl (Some r) 255, np_mul fl (Some g) 255, np_mul fl (Some b) 255)))"

text \<open>
  \<^verbatim>\<open>astype(np.int32)\<close>: the value itself when it fits; out of range, and for \<^verbatim>\<open>inf\<close>
  and \<^verbatim>\<open>nan\<close>, the conversion instruction of x86-64 yields the least 32-bit integer.
\<close>

definition int32_min :: "32 word" where
  "int32_min = word_of_int (- (2 ^ 31))"

definition astype_int32 :: "int \<Rightarrow> 32 word" where
  "astype_int32 i = (if - (2 ^ 31) \<le> i \<and> i < 2 ^ 31 then word_of_int i else int32_min)"

text \<open>
  Line 27 for one component: the division by the step, \<^verbatim>\<open>round()\<close>, whose result is a
  float with an integer value, and the conversion.
\<close>

definition quantize :: "(real \<Rightarrow> real option) \<Rightarrow> real \<Rightarrow> real option \<Rightarrow> 32 word" where
  "quantize fl quantization x =
     (case np_div fl x quantization of None \<Rightarrow> int32_min | Some v \<Rightarrow> astype_int32 (np_round v))"

type_synonym bin_key = "32 word \<times> 32 word \<times> 32 word"

definition colors_quant :: "(real \<Rightarrow> real option) \<Rightarrow> bool \<Rightarrow> real \<Rightarrow> vec3 \<Rightarrow> bin_key" where
  "colors_quant fl use_chromaticity quantization c =
     (case colors_to_bin fl use_chromaticity c of
        (x, y, z) \<Rightarrow>
          (quantize fl quantization x, quantize fl quantization y, quantize fl quantization z))"

subsection \<open>The packed composite key\<close>

text \<open>The four bytes of a 32-bit integer, least significant first.\<close>

definition le_bytes :: "32 word \<Rightarrow> 8 word list" where
  "le_bytes w = [ucast w, ucast (drop_bit 8 w), ucast (drop_bit 16 w), ucast (drop_bit 24 w)]"

text \<open>
  The view of a row of three integers as one opaque item of 12 bytes; numpy compares
  such items byte by byte, which is the lexicographic order of the byte lists.
\<close>

definition pack :: "bin_key \<Rightarrow> 8 word list" where
  "pack t = (case t of (a, b, c) \<Rightarrow> le_bytes a @ le_bytes b @ le_bytes c)"

subsection \<open>Grouping\<close>

fun first_index :: "'a list \<Rightarrow> 'a \<Rightarrow> nat" where
  "first_index [] y = 0"
| "first_index (x # xs) y = (if x = y then 0 else Suc (first_index xs y))"

text \<open>
  \<^verbatim>\<open>np.unique(ar, return_index=True, return_counts=True)\<close>: the sorted distinct values,
  for each of them the index of its first occurrence in \<^verbatim>\<open>ar\<close>, and the number of its
  occurrences.
\<close>

definition np_unique :: "'a::linorder list \<Rightarrow> 'a list \<times> nat list \<times> nat list" where
  "np_unique ar =
     (let u = sort (remdups ar) in (u, map (first_index ar) u, map (count_list ar) u))"

text \<open>\<^verbatim>\<open>np.repeat(xs, counts)\<close>: each element as often as its count says.\<close>

definition np_repeat :: "'a list \<Rightarrow> nat list \<Rightarrow> 'a list" where
  "np_repeat xs counts = concat (map (\<lambda>(x, c). replicate c x) (zip xs counts))"

text \<open>What \<^verbatim>\<open>np.argsort\<close> guarantees: a permutation of the positions that sorts the keys.\<close>

definition is_argsort :: "('a::linorder list \<Rightarrow> nat list) \<Rightarrow> bool" where
  "is_argsort argsort \<longleftrightarrow>
     (\<forall>ks. mset (argsort ks) = mset [0..<length ks] \<and> sorted (map (\<lambda>i. ks ! i) (argsort ks)))"

text \<open>One such function: the stable sort of the positions by their keys.\<close>

definition stable_argsort :: "'a::linorder list \<Rightarrow> nat list" where
  "stable_argsort ks = sort_key (\<lambda>i. ks ! i) [0..<length ks]"

subsection \<open>Stratified selection\<close>

text \<open>Lines 39 to 43 of the source: the sort order and the sorted keys.\<close>

definition sorted_colors_of ::
  "(8 word list list \<Rightarrow> nat list) \<Rightarrow> nat list \<Rightarrow> 8 word list list
     \<Rightarrow> error + nat list \<times> 8 word list list" where
  "sorted_colors_of argsort shuffled_indices colors_packed =
     (case gather colors_packed shuffled_indices of
        Inl e \<Rightarrow> Inl e
      | Inr colors_packed_shuffled \<Rightarrow>
          let sort_order = argsort colors_packed_shuffled in
          (case gather colors_packed_shuffled sort_order of
             Inl e \<Rightarrow> Inl e
           | Inr sorted_colors \<Rightarrow> Inr (sort_order, sorted_colors)))"

text \<open>Lines 46 to 49: for each position of the sorted keys, where its group starts.\<close>

definition group_starts_expanded :: "'a::linorder list \<Rightarrow> nat list" where
  "group_starts_expanded sorted_colors =
     (case np_unique sorted_colors of
        (_, unique_indices, unique_counts) \<Rightarrow> np_repeat unique_indices unique_counts)"

text \<open>Lines 52 to 56: the positions that are among the first \<open>k\<close> of their group.\<close>

definition keep_mask_in_sorted :: "'a::linorder list \<Rightarrow> int \<Rightarrow> bool list" where
  "keep_mask_in_sorted sorted_colors k =
     (let current_indices = [0..<length sorted_colors];
          intra_group_counter =
            map (\<lambda>(c, g). int c - int g) (zip current_indices (group_starts_expanded sorted_colors))
      in map (\<lambda>c. c < k) intra_group_counter)"

text \<open>Line 59: back to the indices of the input.\<close>

definition final_original_indices ::
  "(8 word list list \<Rightarrow> nat list) \<Rightarrow> nat list \<Rightarrow> 8 word list list \<Rightarrow> int \<Rightarrow> error + nat list" where
  "final_original_indices argsort shuffled_indices colors_packed k =
     (case sorted_colors_of argsort shuffled_indices colors_packed of
        Inl e \<Rightarrow> Inl e
      | Inr (sort_order, sorted_colors) \<Rightarrow>
          (case mask_select sort_order (keep_mask_in_sorted sorted_colors k) of
             Inl e \<Rightarrow> Inl e
           | Inr kept \<Rightarrow> gather shuffled_indices kept))"

text \<open>
  The grouping that the selection works on, made observable: each position of the sorted
  keys with the index of the input point that stands there and the start of its group.
\<close>

definition grouping ::
  "(8 word list list \<Rightarrow> nat list) \<Rightarrow> nat list \<Rightarrow> 8 word list list \<Rightarrow> error + (nat \<times> nat) list" where
  "grouping argsort shuffled_indices colors_packed =
     (case sorted_colors_of argsort shuffled_indices colors_packed of
        Inl e \<Rightarrow> Inl e
      | Inr (sort_order, sorted_colors) \<Rightarrow>
          (case gather shuffled_indices sort_order of
             Inl e \<Rightarrow> Inl e
           | Inr original \<Rightarrow> Inr (zip original (group_starts_expanded sorted_colors))))"

subsection \<open>The sampler\<close>

definition prism_sampling ::
  "(real \<Rightarrow> real option) \<Rightarrow> (8 word list list \<Rightarrow> nat list) \<Rightarrow> nat list \<Rightarrow> point_cloud \<Rightarrow> int
     \<Rightarrow> real \<Rightarrow> bool \<Rightarrow> error + point_cloud" where
  "prism_sampling fl argsort shuffled_indices pcd k quantization use_chromaticity =
     (if length (points pcd) = 0 then Inr pcd
      else
        let colors_packed = map (\<lambda>c. pack (colors_quant fl use_chromaticity quantization c)) (colors pcd)
        in (case final_original_indices argsort shuffled_indices colors_packed k of
              Inl e \<Rightarrow> Inl e
            | Inr idx \<Rightarrow>
                (case gather (points pcd) idx of
                   Inl e \<Rightarrow> Inl e
                 | Inr ps \<Rightarrow>
                     (case gather (colors pcd) idx of
                        Inl e \<Rightarrow> Inl e
                      | Inr cs \<Rightarrow>
                          if has_normals pcd then
                            (case gather (normals pcd) idx of
                               Inl e \<Rightarrow> Inl e
                             | Inr ns \<Rightarrow> Inr \<lparr>points = ps, colors = cs, normals = ns\<rparr>)
                          else Inr \<lparr>points = ps, colors = cs, normals = []\<rparr>))))"

subsection \<open>Objects\<close>


subsection \<open>The random generator\<close>




subsection \<open>Groups as an observation\<close>

text \<open>
  Two input points are in the same group when the grouping lists both with the same
  group start.
\<close>

definition same_group :: "(nat \<times> nat) list \<Rightarrow> nat \<Rightarrow> nat \<Rightarrow> bool" where
  "same_group gs i j =
     (case (map_of gs i, map_of gs j) of (Some g, Some h) \<Rightarrow> g = h | _ \<Rightarrow> False)"

subsection \<open>Chromaticity in exact arithmetic\<close>



subsection \<open>Test data\<close>

text \<open>Six points, three of them red and three green, as in the example of the specification.\<close>

definition example_cloud :: point_cloud where
  "example_cloud =
     \<lparr>points = [(0, 0, 0), (1, 0, 0), (2, 0, 0), (3, 0, 0), (4, 0, 0), (5, 0, 0)],
      colors = [(1, 0, 0), (0, 1, 0), (1, 0, 0), (0, 1, 0), (1, 0, 0), (0, 1, 0)],
      normals = [(0, 0, 1), (0, 0, 1), (0, 0, 1), (0, 1, 0), (0, 1, 0), (0, 1, 0)]\<rparr>"

section \<open>Facts about lists, permutations and sorted keys\<close>

lemma gather_Inr: "\<forall>i \<in> set idx. i < length xs \<Longrightarrow> gather xs idx = Inr (map (\<lambda>i. xs ! i) idx)"
  by (simp add: gather_def)

lemma count_prefix_min:
  "length (filter (\<lambda>p. xs ! p = u \<and> count_list (take p xs) u < k) [0..<length xs]) = min k (count_list xs u)"
proof (induction xs rule: rev_induct)
  case Nil
  then show ?case by simp
next
  case (snoc x xs)
  have "filter (\<lambda>p. (xs @ [x]) ! p = u \<and> count_list (take p (xs @ [x])) u < k) [0..<length xs]
      = filter (\<lambda>p. xs ! p = u \<and> count_list (take p xs) u < k) [0..<length xs]"
    by (rule filter_cong) (auto simp: nth_append)
  with snoc show ?case by (auto simp: nth_append)
qed

lemma count_list_all_eq: "\<forall>y \<in> set ys. y = x \<Longrightarrow> count_list ys x = length ys"
  by (induction ys) auto

lemma sorted_first_index_count:
  "sorted xs \<Longrightarrow> p < length xs \<Longrightarrow> first_index xs (xs ! p) + count_list (take p xs) (xs ! p) = p"
proof (induction xs arbitrary: p)
  case Nil
  then show ?case by simp
next
  case (Cons x xs)
  show ?case
  proof (cases p)
    case 0
    then show ?thesis by simp
  next
    case (Suc q)
    show ?thesis
    proof (cases "x = xs ! q")
      case True
      have "\<forall>y \<in> set (take q xs). y = x"
      proof
        fix y assume "y \<in> set (take q xs)"
        then obtain j where "j < q" "y = xs ! j" using Cons.prems Suc
          by (auto simp: in_set_conv_nth)
        then have "y \<le> xs ! q" using Cons.prems Suc by (auto simp: sorted_nth_mono)
        moreover have "x \<le> y" using Cons.prems \<open>y \<in> set (take q xs)\<close> by (auto dest: in_set_takeD)
        ultimately show "y = x" using True by simp
      qed
      then have "count_list (take q xs) x = q" using Cons.prems Suc
        by (simp add: count_list_all_eq)
      then show ?thesis using True Suc by simp
    next
      case False
      then show ?thesis using Cons Suc by auto
    qed
  qed
qed

lemma count_concat_replicate:
  "distinct us \<Longrightarrow>
   count (mset (concat (map (\<lambda>u. replicate (c u) u) us))) a = (if a \<in> set us then c a else 0)"
  by (induction us) auto

lemma sorted_concat_replicate:
  "sorted us \<Longrightarrow> sorted (concat (map (\<lambda>u. replicate (c u) u) us))"
  by (induction us) (auto simp: sorted_append)

lemma count_mset_count_list: "count (mset xs) a = count_list xs a"
  by (induction xs) auto

lemma concat_replicate_sorted:
  assumes "sorted xs"
  shows "concat (map (\<lambda>u. replicate (count_list xs u) u) (sort (remdups xs))) = xs"
proof -
  let ?ys = "concat (map (\<lambda>u. replicate (count_list xs u) u) (sort (remdups xs)))"
  have "mset ?ys = mset xs"
  proof (rule multiset_eqI)
    fix a
    have "count (mset ?ys) a = (if a \<in> set xs then count_list xs a else 0)"
      using count_concat_replicate [of "sort (remdups xs)" "count_list xs" a] by simp
    also have "\<dots> = count_list xs a" by (simp add: count_list_0_iff)
    finally show "count (mset ?ys) a = count (mset xs) a" by (simp add: count_mset_count_list)
  qed
  moreover have "sorted ?ys" by (rule sorted_concat_replicate) simp
  ultimately have "sort xs = ?ys" by (rule properties_for_sort)
  with assms show ?thesis by (simp add: sorted_sort_id)
qed

lemma group_starts_expanded_sorted:
  assumes "sorted xs"
  shows "group_starts_expanded xs = map (first_index xs) xs"
proof -
  let ?u = "sort (remdups xs)"
  have "group_starts_expanded xs
      = concat (map (\<lambda>v. replicate (count_list xs v) (first_index xs v)) ?u)"
    by (simp add: group_starts_expanded_def np_unique_def np_repeat_def Let_def zip_map_map
        zip_same_conv_map comp_def)
  also have "\<dots> = map (first_index xs) (concat (map (\<lambda>v. replicate (count_list xs v) v) ?u))"
    by (simp add: map_concat comp_def)
  also have "\<dots> = map (first_index xs) xs"
    using assms by (simp add: concat_replicate_sorted)
  finally show ?thesis .
qed

lemma keep_mask_sorted:
  assumes "sorted xs"
  shows "keep_mask_in_sorted xs k
       = map (\<lambda>p. int (count_list (take p xs) (xs ! p)) < k) [0..<length xs]"
proof -
  have "zip [0..<length xs] (map (first_index xs) xs)
      = map (\<lambda>p. (p, first_index xs (xs ! p))) [0..<length xs]"
    by (rule nth_equalityI) auto
  then have "keep_mask_in_sorted xs k
      = map (\<lambda>p. int p - int (first_index xs (xs ! p)) < k) [0..<length xs]"
    using assms by (simp add: keep_mask_in_sorted_def Let_def group_starts_expanded_sorted comp_def)
  also have "\<dots> = map (\<lambda>p. int (count_list (take p xs) (xs ! p)) < k) [0..<length xs]"
  proof (rule map_cong [OF refl])
    fix p assume "p \<in> set [0..<length xs]"
    then have "first_index xs (xs ! p) + count_list (take p xs) (xs ! p) = p"
      using assms by (simp add: sorted_first_index_count)
    then show "(int p - int (first_index xs (xs ! p)) < k)
             = (int (count_list (take p xs) (xs ! p)) < k)"
      by linarith
  qed
  finally show ?thesis .
qed

lemma mask_select_maps:
  "mask_select (map g ps) (map f ps) = Inr (map g (filter f ps))"
proof -
  have "map fst (filter snd (zip (map g ps) (map f ps))) = map g (filter f ps)"
    by (induction ps) auto
  then show ?thesis by (simp add: mask_select_def)
qed

lemma perm_upt_facts:
  assumes "mset sh = mset [0..<n]"
  shows "set sh = {0..<n}" and "length sh = n" and "distinct sh"
proof -
  show "set sh = {0..<n}" using mset_eq_setD [OF assms] by simp
  show "length sh = n" using mset_eq_length [OF assms] by simp
  show "distinct sh" using mset_eq_imp_distinct_iff [OF assms] by simp
qed

lemma perm_upt_nth:
  assumes "mset sh = mset [0..<n]" and "p < n"
  shows "sh ! p < n"
proof -
  have "sh ! p \<in> set sh" using assms perm_upt_facts(2) [OF assms(1)] by simp
  then have "sh ! p \<in> {0..<n}" using perm_upt_facts(1) [OF assms(1)] by simp
  then show ?thesis by simp
qed

lemma mset_map_nth_perm:
  assumes "mset idx = mset [0..<length xs]"
  shows "mset (map (\<lambda>i. xs ! i) idx) = mset xs"
proof -
  have "mset (map (\<lambda>i. xs ! i) idx) = image_mset (\<lambda>i. xs ! i) (mset idx)" by simp
  also have "\<dots> = mset (map (\<lambda>i. xs ! i) [0..<length xs])" using assms by simp
  also have "\<dots> = mset xs" by (simp add: map_nth)
  finally show ?thesis .
qed

lemma int_less_nat: "(int c < k) = (c < nat k)"
  by linarith

lemma selection_structure:
  assumes arg: "is_argsort argsort"
    and sh: "mset sh = mset [0..<n]"
    and len: "n \<le> length ks"
  defines "order \<equiv> argsort (map (\<lambda>i. ks ! i) sh)"
  defines "xs \<equiv> map (\<lambda>p. ks ! (sh ! (order ! p))) [0..<n]"
  shows "mset order = mset [0..<n]"
    and "sorted xs"
    and "sorted_colors_of argsort sh ks = Inr (order, xs)"
    and "final_original_indices argsort sh ks k
        = Inr (map (\<lambda>p. sh ! (order ! p))
                 (filter (\<lambda>p. count_list (take p xs) (xs ! p) < nat k) [0..<n]))"
proof -
  define cps where "cps = map (\<lambda>i. ks ! i) sh"
  define ys where "ys = map (\<lambda>i. cps ! i) order"
  note shf = perm_upt_facts [OF sh]
  have g1: "gather ks sh = Inr cps"
    using shf len by (simp add: gather_def cps_def)
  have lcps: "length cps = n" using shf by (simp add: cps_def)
  have o_def: "order = argsort cps" by (simp add: order_def cps_def)
  have "mset (argsort cps) = mset [0..<length cps]" and "sorted (map (\<lambda>i. cps ! i) (argsort cps))"
    using arg unfolding is_argsort_def by blast+
  then have ord: "mset order = mset [0..<n]" and sys: "sorted ys"
    using lcps by (simp_all add: o_def ys_def)
  note ordf = perm_upt_facts [OF ord]
  have g2: "gather cps order = Inr ys"
    using ordf lcps by (simp add: gather_def ys_def)
  have ordn: "order ! p < n" if "p < n" for p
    using ord that by (rule perm_upt_nth)
  have ys_eq: "ys = xs"
  proof (rule nth_equalityI)
    show "length ys = length xs" using ordf by (simp add: ys_def xs_def)
  next
    fix p assume "p < length ys"
    then have p: "p < n" using ordf by (simp add: ys_def)
    then show "ys ! p = xs ! p"
      using ordf ordn [OF p] shf by (simp add: ys_def xs_def cps_def)
  qed
  have sc: "sorted_colors_of argsort sh ks = Inr (order, xs)"
    using g1 g2 by (simp add: sorted_colors_of_def o_def ys_eq)
  have sxs: "sorted xs" using sys ys_eq by simp
  have lxs: "length xs = n" by (simp add: xs_def)
  let ?f = "\<lambda>p. count_list (take p xs) (xs ! p) < nat k"
  have km: "keep_mask_in_sorted xs k = map ?f [0..<n]"
    using sxs lxs by (simp add: keep_mask_sorted int_less_nat)
  have "map (\<lambda>p. order ! p) [0..<length order] = order" by (rule map_nth)
  then have om: "order = map (\<lambda>p. order ! p) [0..<n]" using ordf by simp
  have "mask_select order (keep_mask_in_sorted xs k)
             = mask_select (map (\<lambda>p. order ! p) [0..<n]) (map ?f [0..<n])"
    unfolding km using om by simp
  also have "\<dots> = Inr (map (\<lambda>p. order ! p) (filter ?f [0..<n]))"
    by (rule mask_select_maps)
  finally have ms: "mask_select order (keep_mask_in_sorted xs k)
             = Inr (map (\<lambda>p. order ! p) (filter ?f [0..<n]))" .
  have "gather sh (map (\<lambda>p. order ! p) (filter ?f [0..<n]))
        = Inr (map (\<lambda>i. sh ! i) (map (\<lambda>p. order ! p) (filter ?f [0..<n])))"
    using ordn shf by (intro gather_Inr) auto
  then have fin: "final_original_indices argsort sh ks k
        = Inr (map (\<lambda>p. sh ! (order ! p)) (filter ?f [0..<n]))"
    using sc ms by (simp add: final_original_indices_def comp_def)
  show "mset order = mset [0..<n]" by (rule ord)
  show "sorted xs" by (rule sxs)
  show "sorted_colors_of argsort sh ks = Inr (order, xs)" by (rule sc)
  show "final_original_indices argsort sh ks k
        = Inr (map (\<lambda>p. sh ! (order ! p)) (filter ?f [0..<n]))" by (rule fin)
qed

lemma take_as_map_nth: "n \<le> length ks \<Longrightarrow> map (\<lambda>i. ks ! i) [0..<n] = take n ks"
  by (rule nth_equalityI) auto

lemma selection_properties:
  assumes arg: "is_argsort argsort"
    and sh: "mset sh = mset [0..<n]"
    and len: "n \<le> length ks"
  shows "\<exists>idx. final_original_indices argsort sh ks k = Inr idx \<and> distinct idx \<and>
           set idx \<subseteq> {0..<n} \<and>
           (\<forall>u. length (filter (\<lambda>i. ks ! i = u) idx) = min (nat k) (count_list (take n ks) u))"
proof -
  define order where "order = argsort (map (\<lambda>i. ks ! i) sh)"
  define xs where "xs = map (\<lambda>p. ks ! (sh ! (order ! p))) [0..<n]"
  define g where "g = (\<lambda>p. sh ! (order ! p))"
  define P where "P = filter (\<lambda>p. count_list (take p xs) (xs ! p) < nat k) [0..<n]"
  define idx where "idx = map g P"
  have ord: "mset order = mset [0..<n]"
    unfolding order_def by (rule selection_structure(1) [OF arg sh len])
  have 1: "final_original_indices argsort sh ks k = Inr idx"
    unfolding idx_def g_def P_def xs_def order_def
    by (rule selection_structure(4) [OF arg sh len])
  note shf = perm_upt_facts [OF sh] and ordf = perm_upt_facts [OF ord]
  have lxs: "length xs = n" by (simp add: xs_def)
  have ordn: "order ! p < n" if "p < n" for p
    using ord that by (rule perm_upt_nth)
  have gn: "g p < n" if "p < n" for p
    unfolding g_def using sh ordn [OF that] by (rule perm_upt_nth)
  have inj: "inj_on g {0..<n}"
  proof (rule inj_onI)
    fix p q assume pq: "p \<in> {0..<n}" "q \<in> {0..<n}" and eq: "g p = g q"
    have "order ! p < length sh" "order ! q < length sh"
      using pq ordn shf by simp_all
    with eq shf have "order ! p = order ! q"
      by (simp add: g_def nth_eq_iff_index_eq)
    moreover have "p < length order" "q < length order" using pq ordf by simp_all
    ultimately show "p = q" using ordf by (simp add: nth_eq_iff_index_eq)
  qed
  have Psub: "set P \<subseteq> {0..<n}" by (auto simp: P_def)
  have "inj_on g (set P)" by (rule inj_on_subset [OF inj Psub])
  moreover have "distinct P" by (simp add: P_def)
  ultimately have 2: "distinct idx" by (simp add: idx_def distinct_map)
  have 3: "set idx \<subseteq> {0..<n}" using gn Psub by (auto simp: idx_def)
  have 4: "length (filter (\<lambda>i. ks ! i = u) idx) = min (nat k) (count_list (take n ks) u)" for u
  proof -
    have "filter (\<lambda>i. ks ! i = u) idx = map g (filter (\<lambda>p. ks ! g p = u) P)"
      by (simp add: idx_def filter_map comp_def)
    then have "length (filter (\<lambda>i. ks ! i = u) idx)
        = length (filter (\<lambda>p. ks ! g p = u \<and> count_list (take p xs) (xs ! p) < nat k) [0..<n])"
      by (simp add: P_def conj_commute)
    also have "filter (\<lambda>p. ks ! g p = u \<and> count_list (take p xs) (xs ! p) < nat k) [0..<n]
        = filter (\<lambda>p. xs ! p = u \<and> count_list (take p xs) u < nat k) [0..<length xs]"
      unfolding lxs by (rule filter_cong) (auto simp: xs_def g_def)
    also have "length \<dots> = min (nat k) (count_list xs u)" by (rule count_prefix_min)
    finally have a: "length (filter (\<lambda>i. ks ! i = u) idx) = min (nat k) (count_list xs u)" .
    have "map (\<lambda>p. order ! p) [0..<length order] = order" by (rule map_nth)
    then have "map (\<lambda>p. order ! p) [0..<n] = order" using ordf by simp
    then have "map g [0..<n] = map (\<lambda>i. sh ! i) order"
      unfolding g_def by (metis (no_types, lifting) map_map comp_apply map_eq_conv)
    moreover have "mset (map (\<lambda>i. sh ! i) order) = mset sh"
      by (rule mset_map_nth_perm) (use ord shf in simp)
    ultimately have "mset (map g [0..<n]) = mset [0..<n]" using sh by simp
    then have "image_mset (\<lambda>i. ks ! i) (mset (map g [0..<n])) = image_mset (\<lambda>i. ks ! i) (mset [0..<n])"
      by (rule arg_cong)
    then have "mset (map (\<lambda>i. ks ! i) (map g [0..<n])) = mset (map (\<lambda>i. ks ! i) [0..<n])"
      by (simp only: mset_map)
    moreover have "xs = map (\<lambda>i. ks ! i) (map g [0..<n])" by (simp add: xs_def g_def)
    ultimately have "mset xs = mset (take n ks)" using len by (simp add: take_as_map_nth)
    then have "count (mset xs) u = count (mset (take n ks)) u" by simp
    then have "count_list xs u = count_list (take n ks) u"
      by (simp only: count_mset_count_list)
    with a show ?thesis by simp
  qed
  show ?thesis using 1 2 3 4 by blast
qed

section \<open>Facts about the packed key and the sampler\<close>

lemma stable_argsort_ok: "is_argsort stable_argsort"
  by (simp add: is_argsort_def stable_argsort_def)

lemma byte_bits:
  fixes w v :: "32 word"
  assumes "(ucast (drop_bit j w) :: 8 word) = ucast (drop_bit j v)" and "m < 8" and "j + m < 32"
  shows "bit w (j + m) = bit v (j + m)"
proof -
  have "bit (ucast (drop_bit j w) :: 8 word) m = bit (ucast (drop_bit j v) :: 8 word) m"
    using assms(1) by simp
  then show ?thesis using assms(2,3) by (simp add: bit_ucast_iff bit_drop_bit_eq)
qed

lemma le_bytes_inj:
  assumes "le_bytes w = le_bytes v"
  shows "w = v"
proof (rule bit_word_eqI)
  fix n assume "n < LENGTH(32)"
  then have n: "n < 32" by simp
  from assms have b0: "(ucast (drop_bit 0 w) :: 8 word) = ucast (drop_bit 0 v)"
    and b1: "(ucast (drop_bit 8 w) :: 8 word) = ucast (drop_bit 8 v)"
    and b2: "(ucast (drop_bit 16 w) :: 8 word) = ucast (drop_bit 16 v)"
    and b3: "(ucast (drop_bit 24 w) :: 8 word) = ucast (drop_bit 24 v)"
    by (simp_all add: le_bytes_def)
  consider "n < 8" | "8 \<le> n" "n < 16" | "16 \<le> n" "n < 24" | "24 \<le> n" "n < 32"
    using n by linarith
  then show "bit w n = bit v n"
  proof cases
    case 1
    then show ?thesis using byte_bits [OF b0, of n] by simp
  next
    case 2
    then show ?thesis using byte_bits [OF b1, of "n - 8"] by simp
  next
    case 3
    then show ?thesis using byte_bits [OF b2, of "n - 16"] by simp
  next
    case 4
    then show ?thesis using byte_bits [OF b3, of "n - 24"] by simp
  qed
qed

lemma length_le_bytes: "length (le_bytes w) = 4"
  by (simp add: le_bytes_def)

lemma pack_inj: "pack s = pack t \<longleftrightarrow> s = t"
proof
  assume eq: "pack s = pack t"
  obtain a b c where s: "s = (a, b, c)" by (cases s) auto
  obtain a' b' c' where t: "t = (a', b', c')" by (cases t) auto
  from eq have "le_bytes a @ le_bytes b @ le_bytes c = le_bytes a' @ le_bytes b' @ le_bytes c'"
    by (simp add: pack_def s t)
  then have "le_bytes a = le_bytes a'" "le_bytes b = le_bytes b'" "le_bytes c = le_bytes c'"
    by (simp_all add: length_le_bytes)
  then show "s = t" by (simp add: s t le_bytes_inj)
qed simp

lemma count_list_map_pack:
  "count_list (map (\<lambda>c. pack (f c)) cs) (pack t) = length (filter (\<lambda>c. f c = t) cs)"
  by (induction cs) (auto simp: pack_inj)

lemma sampling_structure:
  assumes arg: "is_argsort argsort"
    and sh: "mset sh = mset [0..<length (points pcd)]"
    and ne: "points pcd \<noteq> []"
    and len: "length (points pcd) \<le> length (colors pcd)"
  shows "\<exists>idx.
      prism_sampling fl argsort sh pcd k q uc
        = Inr \<lparr>points = map (\<lambda>i. points pcd ! i) idx,
               colors = map (\<lambda>i. colors pcd ! i) idx,
               normals = (if has_normals pcd then map (\<lambda>i. normals pcd ! i) idx else [])\<rparr> \<and>
      distinct idx \<and> set idx \<subseteq> {0..<length (points pcd)} \<and>
      (\<forall>t. length (filter (\<lambda>i. colors_quant fl uc q (colors pcd ! i) = t) idx)
          = min (nat k)
              (length (filter (\<lambda>c. colors_quant fl uc q c = t)
                 (take (length (points pcd)) (colors pcd)))))"
proof -
  define n where "n = length (points pcd)"
  define ks where "ks = map (\<lambda>c. pack (colors_quant fl uc q c)) (colors pcd)"
  have lks: "n \<le> length ks" using len by (simp add: ks_def n_def)
  from selection_properties [OF arg sh [folded n_def] lks, of k]
  obtain idx where fin: "final_original_indices argsort sh ks k = Inr idx"
    and dist: "distinct idx" and sub: "set idx \<subseteq> {0..<n}"
    and cnt: "\<And>u. length (filter (\<lambda>i. ks ! i = u) idx) = min (nat k) (count_list (take n ks) u)"
    by blast
  have in_p: "\<forall>i \<in> set idx. i < length (points pcd)" using sub by (auto simp: n_def)
  have in_c: "\<forall>i \<in> set idx. i < length (colors pcd)" using sub len by (auto simp: n_def)
  have in_n: "has_normals pcd \<Longrightarrow> \<forall>i \<in> set idx. i < length (normals pcd)"
    using sub by (auto simp: n_def has_normals_def)
  have res: "prism_sampling fl argsort sh pcd k q uc
        = Inr \<lparr>points = map (\<lambda>i. points pcd ! i) idx,
               colors = map (\<lambda>i. colors pcd ! i) idx,
               normals = (if has_normals pcd then map (\<lambda>i. normals pcd ! i) idx else [])\<rparr>"
  proof (cases "has_normals pcd")
    case True
    then show ?thesis
      using ne fin
      by (simp add: prism_sampling_def ks_def [symmetric] gather_Inr [OF in_p] gather_Inr [OF in_c]
          gather_Inr [OF in_n])
  next
    case False
    then show ?thesis
      using ne fin
      by (simp add: prism_sampling_def ks_def [symmetric] gather_Inr [OF in_p] gather_Inr [OF in_c])
  qed
  have c: "length (filter (\<lambda>i. colors_quant fl uc q (colors pcd ! i) = t) idx)
          = min (nat k) (length (filter (\<lambda>c. colors_quant fl uc q c = t) (take n (colors pcd))))" for t
  proof -
    have "filter (\<lambda>i. colors_quant fl uc q (colors pcd ! i) = t) idx
        = filter (\<lambda>i. ks ! i = pack t) idx"
      by (rule filter_cong) (use in_c in \<open>auto simp: ks_def pack_inj\<close>)
    moreover have "count_list (take n ks) (pack t)
        = length (filter (\<lambda>c. colors_quant fl uc q c = t) (take n (colors pcd)))"
      by (simp add: ks_def take_map count_list_map_pack)
    ultimately show ?thesis using cnt [of "pack t"] by simp
  qed
  show ?thesis using res dist sub c unfolding n_def by blast
qed

lemma count_image_filter: "count (image_mset f (mset idx)) t = length (filter (\<lambda>i. f i = t) idx)"
  by (induction idx) auto

lemma perm_by_sort: "sort sh = [0..<n] \<Longrightarrow> mset sh = mset [0..<n]"
  by (metis mset_sort)

lemma length_le_bins:
  assumes cap: "\<And>t. length (filter (\<lambda>i. f i = t) idx) \<le> m"
    and sub: "f ` set idx \<subseteq> B" and fin: "finite B"
  shows "length idx \<le> card B * m"
proof -
  have "length idx = size (mset (map f idx))" by simp
  also have "\<dots> = (\<Sum>t \<in> set_mset (mset (map f idx)). count (mset (map f idx)) t)"
    by (rule size_multiset_overloaded_eq)
  also have "\<dots> = (\<Sum>t \<in> f ` set idx. length (filter (\<lambda>i. f i = t) idx))"
    by (simp add: count_image_filter)
  also have "\<dots> \<le> (\<Sum>t \<in> f ` set idx. m)" by (rule sum_mono) (rule cap)
  also have "\<dots> = card (f ` set idx) * m" by simp
  also have "\<dots> \<le> card B * m" using sub fin by (simp add: card_mono)
  finally show ?thesis .
qed

section \<open>Facts about the rounding\<close>

lemmas binary64_eval =
  binary64_def exponent_def exponent_up.simps exponent_down.simps pow2_def np_round_def Let_def

lemma binary64_eps: "binary64 (1 / 1000000) = Some (4722366482869645 / 2 ^ 72)"
  by (simp add: binary64_eval)

lemma pow2_pos: "0 < pow2 e"
  by (simp add: pow2_def)

lemma pow2_powi: "pow2 e = 2 powi e"
  by (simp add: pow2_def power_int_def inverse_eq_divide power_one_over)

lemma pow2_mono: "e \<le> e' \<Longrightarrow> pow2 e \<le> pow2 e'"
  by (simp add: pow2_powi power_int_increasing)

lemma np_round_upper: "real_of_int (np_round t) \<le> t + 1 / 2"
  unfolding np_round_def Let_def by (simp; linarith)

lemma np_round_lower: "t - 1 / 2 \<le> real_of_int (np_round t)"
  unfolding np_round_def Let_def by (simp; linarith)

lemma np_round_nonneg: "0 \<le> t \<Longrightarrow> 0 \<le> np_round t"
  unfolding np_round_def Let_def by (simp; linarith)

lemma np_round_le_double: "0 \<le> t \<Longrightarrow> real_of_int (np_round t) \<le> 2 * t"
proof (cases "t < 1 / 2")
  case True
  assume "0 \<le> t"
  with True have "\<lfloor>t\<rfloor> = 0" by linarith
  with True show ?thesis using \<open>0 \<le> t\<close> by (simp add: np_round_def)
next
  case False
  then show ?thesis using np_round_upper [of t] by linarith
qed

lemma np_round_ge_half: "1 \<le> t \<Longrightarrow> t / 2 \<le> real_of_int (np_round t)"
  using np_round_lower [of t] by linarith

lemma exponent_up_low: "pow2 e \<le> a \<Longrightarrow> pow2 (exponent_up e a) \<le> a"
proof (induction e a rule: exponent_up.induct)
  case (1 e a)
  show ?case
  proof (cases "1024 \<le> e \<or> a < pow2 (e + 1)")
    case True
    then show ?thesis using 1(2) by (subst exponent_up.simps) simp
  next
    case False
    then have "pow2 (exponent_up (e + 1) a) \<le> a" by (intro 1(1)) auto
    then show ?thesis using False by (subst exponent_up.simps) simp
  qed
qed

lemma exponent_up_less: "e < 1024 \<Longrightarrow> a < pow2 1024 \<Longrightarrow> exponent_up e a < 1024"
proof (induction e a rule: exponent_up.induct)
  case (1 e a)
  show ?case
  proof (cases "1024 \<le> e \<or> a < pow2 (e + 1)")
    case True
    then show ?thesis using 1(2) by (subst exponent_up.simps) simp
  next
    case False
    then have "pow2 (e + 1) \<le> a" by simp
    with 1(3) have "pow2 (e + 1) < pow2 1024" by simp
    then have "e + 1 < 1024" using pow2_mono [of 1024 "e + 1"] by linarith
    with False have "exponent_up (e + 1) a < 1024" using 1(3) by (intro 1(1)) auto
    then show ?thesis using False by (subst exponent_up.simps) simp
  qed
qed

lemma exponent_down_le: "exponent_down e a \<le> e"
proof (induction e a rule: exponent_down.induct)
  case (1 e a)
  show ?case
  proof (cases "e \<le> - 1022 \<or> pow2 e \<le> a")
    case True
    then show ?thesis by (subst exponent_down.simps) simp
  next
    case False
    then have "exponent_down (e - 1) a \<le> e - 1" by (intro 1) auto
    then show ?thesis using False by (subst exponent_down.simps) simp
  qed
qed

lemma exponent_down_low: "pow2 (exponent_down e a) \<le> a \<or> exponent_down e a \<le> - 1022"
proof (induction e a rule: exponent_down.induct)
  case (1 e a)
  show ?case
  proof (cases "e \<le> - 1022 \<or> pow2 e \<le> a")
    case True
    then show ?thesis by (subst (1 2) exponent_down.simps) auto
  next
    case False
    then have "pow2 (exponent_down (e - 1) a) \<le> a \<or> exponent_down (e - 1) a \<le> - 1022"
      by (intro 1) auto
    then show ?thesis using False by (subst (1 2) exponent_down.simps) simp
  qed
qed

lemma exponent_less: "a < 2 ^ 42 \<Longrightarrow> exponent a < 1024"
proof (cases "1 \<le> a")
  case True
  assume "a < 2 ^ 42"
  also have "(2::real) ^ 42 \<le> pow2 1024" by (simp add: pow2_def)
  finally have "exponent_up 0 a < 1024" by (intro exponent_up_less) simp_all
  with True show ?thesis by (simp add: exponent_def)
next
  case False
  then show ?thesis using exponent_down_le [of 0 a] by (simp add: exponent_def)
qed

lemma ulp_le:
  assumes "1 / 2 ^ 100 \<le> x"
  shows "pow2 (exponent x - 52) \<le> x"
proof -
  have tiny: "pow2 (- 1074) \<le> 1 / 2 ^ 100"
    by (simp add: pow2_def field_simps)
  have "pow2 (exponent x) \<le> x \<or> exponent x \<le> - 1022"
  proof (cases "1 \<le> x")
    case True
    then have "pow2 0 \<le> x" by (simp add: pow2_def)
    then have "pow2 (exponent_up 0 x) \<le> x" by (rule exponent_up_low)
    with True show ?thesis by (simp add: exponent_def)
  next
    case False
    then show ?thesis using exponent_down_low [of 0 x] by (simp add: exponent_def)
  qed
  then show ?thesis
  proof
    assume "pow2 (exponent x) \<le> x"
    moreover have "pow2 (exponent x - 52) \<le> pow2 (exponent x)" by (rule pow2_mono) simp
    ultimately show ?thesis by linarith
  next
    assume "exponent x \<le> - 1022"
    then have "pow2 (exponent x - 52) \<le> pow2 (- 1074)" by (intro pow2_mono) simp
    with tiny assms show ?thesis by linarith
  qed
qed

lemma binary64_nonneg:
  assumes "0 \<le> x" and "x \<le> 2 ^ 40"
  shows "\<exists>y. binary64 x = Some y \<and> 0 \<le> y \<and> y \<le> 2 * x"
proof (cases "x = 0")
  case True
  then show ?thesis by (simp add: binary64_def)
next
  case False
  define u where "u = pow2 (exponent \<bar>x\<bar> - 52)"
  define y where "y = real_of_int (np_round (x / u)) * u"
  have u: "0 < u" by (simp add: u_def pow2_pos)
  then have t: "0 \<le> x / u" using assms(1) by simp
  have y0: "0 \<le> y" using np_round_nonneg [OF t] u by (simp add: y_def)
  have "y \<le> 2 * (x / u) * u"
    unfolding y_def using np_round_le_double [OF t] u by (intro mult_right_mono) simp_all
  then have y2: "y \<le> 2 * x" using u by simp
  then have "y < 2 ^ 42" using assms(2) by simp
  then have "exponent \<bar>y\<bar> < 1024" using y0 by (intro exponent_less) simp
  then have "binary64 x = Some y"
    using False by (simp add: binary64_def Let_def u_def [symmetric] y_def [symmetric])
  with y0 y2 show ?thesis by simp
qed

lemma binary64_lower:
  assumes "1 / 2 ^ 100 \<le> x" and "x \<le> 2 ^ 40"
  shows "\<exists>y. binary64 x = Some y \<and> x / 2 \<le> y \<and> y \<le> 2 * x"
proof -
  have pos: "0 < x" using assms(1) by (rule less_le_trans [rotated]) simp
  then have ax: "\<bar>x\<bar> = x" by simp
  define u where "u = pow2 (exponent \<bar>x\<bar> - 52)"
  define y where "y = real_of_int (np_round (x / u)) * u"
  have u: "0 < u" by (simp add: u_def pow2_pos)
  have "u \<le> x" unfolding u_def ax using assms(1) by (rule ulp_le)
  then have t: "1 \<le> x / u" using u by simp
  have "x / u / 2 * u \<le> y"
    unfolding y_def using np_round_ge_half [OF t] u by (intro mult_right_mono) simp_all
  then have lo: "x / 2 \<le> y" using u by simp
  from binary64_nonneg [of x] pos assms(2)
  obtain y' where y': "binary64 x = Some y'" "y' \<le> 2 * x" by auto
  have u': "u = pow2 (exponent x - 52)" by (simp add: u_def ax)
  have "binary64 x = (if 1024 \<le> exponent \<bar>y\<bar> then None else Some y)"
    using pos by (simp add: binary64_def Let_def u' [symmetric] y_def [symmetric])
  with y' have "y' = y" by (simp split: if_splits)
  with y' lo show ?thesis by simp
qed

lemma quant_red: "colors_quant binary64 True 1 (1, 0, 0) = (255, 0, 0)"
  by (simp add: colors_quant_def colors_to_bin_def normalized_colors_def sum_colors_def
      np_add_def np_mul_def np_div_def quantize_def astype_int32_def binary64_eval)

lemma quant_green: "colors_quant binary64 True 1 (0, 1, 0) = (0, 255, 0)"
  by (simp add: colors_quant_def colors_to_bin_def normalized_colors_def sum_colors_def
      np_add_def np_mul_def np_div_def quantize_def astype_int32_def binary64_eval)

lemma sum_colors_valid:
  assumes "0 \<le> r" and "r \<le> 1" and "0 \<le> g" and "g \<le> 1" and "0 \<le> b" and "b \<le> 1"
  shows "\<exists>s. sum_colors binary64 (r, g, b) = Some s \<and> 1 / 2 ^ 21 \<le> s"
proof -
  define eps :: real where "eps = 4722366482869645 / 2 ^ 72"
  have eps: "binary64 (1 / 1000000) = Some eps" by (simp add: eps_def binary64_eps)
  have e1: "1 / 2 ^ 100 \<le> eps" and e2: "1 / 2 ^ 20 \<le> eps" and e3: "eps \<le> 1"
    by (simp_all add: eps_def)
  from binary64_nonneg [of "r + g"] assms
  obtain s1 where s1: "binary64 (r + g) = Some s1" "0 \<le> s1" "s1 \<le> 4" by auto
  from binary64_nonneg [of "s1 + b"] s1 assms
  obtain s2 where s2: "binary64 (s1 + b) = Some s2" "0 \<le> s2" "s2 \<le> 10" by auto
  from binary64_lower [of "s2 + eps"] s2 e1 e3
  obtain s where s: "binary64 (s2 + eps) = Some s" "(s2 + eps) / 2 \<le> s" by auto
  have "sum_colors binary64 (r, g, b) = Some s"
    by (simp add: sum_colors_def np_add_def eps s1 s2 s)
  moreover have "1 / 2 ^ 21 \<le> s" using s(2) s2(2) e2 by simp
  ultimately show ?thesis by simp
qed

lemma chroma_component:
  assumes "0 \<le> c" and "c \<le> 1" and "1 / 2 ^ 21 \<le> s"
  shows "\<exists>n x. binary64 (c / s) = Some n \<and> binary64 (n * 255) = Some x"
proof -
  have pos: "0 < s" using assms(3) by (rule less_le_trans [rotated]) simp
  have "c / s \<le> 1 / s" using assms(2) pos by (simp add: divide_right_mono)
  also have "1 / s \<le> 2 ^ 21" using assms(3) pos by (simp add: field_simps)
  finally have q: "c / s \<le> 2 ^ 21" .
  have q0: "0 \<le> c / s" using assms(1) pos by simp
  from binary64_nonneg [of "c / s"] q q0
  obtain n where n: "binary64 (c / s) = Some n" "0 \<le> n" "n \<le> 2 ^ 22" by auto
  from binary64_nonneg [of "n * 255"] n
  obtain x where "binary64 (n * 255) = Some x" by auto
  with n show ?thesis by simp
qed

section \<open>The accuracy of the computed chromaticity\<close>



















section \<open>Further facts for the claims\<close>

lemma example_keys:
  "map (\<lambda>c. pack (colors_quant binary64 True 1 c)) (colors example_cloud)
     = [pack (255, 0, 0), pack (0, 255, 0), pack (255, 0, 0), pack (0, 255, 0),
        pack (255, 0, 0), pack (0, 255, 0)]"
  by (simp add: example_cloud_def quant_red quant_green)




lemma example_shuffle: "mset [3, 5, 0, 2, 1, 4] = mset [0..<length (points example_cloud)]"
proof -
  have "sort [3, 5, 0, 2, 1, 4] = [0..<length (points example_cloud)]"
    by code_simp
  then show ?thesis by (rule perm_by_sort)
qed


lemma nth_first_index: "a \<in> set xs \<Longrightarrow> xs ! first_index xs a = a"
  by (induction xs) auto

lemma first_index_eq_iff:
  assumes "a \<in> set xs" and "b \<in> set xs"
  shows "first_index xs a = first_index xs b \<longleftrightarrow> a = b"
  using assms nth_first_index by metis

lemma perm_compose:
  assumes ord: "mset order = mset [0..<n]" and sh: "mset sh = mset [0..<n]"
  shows "mset (map (\<lambda>p. sh ! (order ! p)) [0..<n]) = mset [0..<n]"
proof -
  note ordf = perm_upt_facts [OF ord] and shf = perm_upt_facts [OF sh]
  have "map (\<lambda>p. order ! p) [0..<length order] = order" by (rule map_nth)
  then have "map (\<lambda>p. order ! p) [0..<n] = order" using ordf by simp
  then have "map (\<lambda>i. sh ! i) (map (\<lambda>p. order ! p) [0..<n]) = map (\<lambda>i. sh ! i) order"
    by simp
  then have "map (\<lambda>p. sh ! (order ! p)) [0..<n] = map (\<lambda>i. sh ! i) order"
    by (simp add: comp_def)
  moreover have "mset (map (\<lambda>i. sh ! i) order) = mset sh"
    by (rule mset_map_nth_perm) (use ord shf in simp)
  ultimately show ?thesis using sh by simp
qed

lemma map_of_graph:
  "map_of (map (\<lambda>p. (g p, h (g p))) ps) i = (if i \<in> g ` set ps then Some (h i) else None)"
  by (induction ps) auto

lemma zip_maps: "zip (map a ps) (map b ps) = map (\<lambda>p. (a p, b p)) ps"
  by (induction ps) auto





section \<open>Empty input\<close>

text \<open>
  C7. A cloud whose sequence of points is empty is returned as it is, without an error,
  whatever the bin capacity, the quantisation step and the colour mode are.
\<close>

theorem empty_cloud_unchanged:
  "points pcd = [] \<Longrightarrow>
     prism_sampling fl argsort shuffled_indices pcd k quantization use_chromaticity = Inr pcd"
  by (simp add: prism_sampling_def)

theorem empty_cloud_unchanged_witness:
  "points \<lparr>points = [], colors = [(1, 0, 0)], normals = []\<rparr> = [] \<and>
   prism_sampling binary64 stable_argsort [] \<lparr>points = [], colors = [(1, 0, 0)], normals = []\<rparr> 0 0 True
     = Inr \<lparr>points = [], colors = [(1, 0, 0)], normals = []\<rparr>"
  using empty_cloud_unchanged [of "\<lparr>points = [], colors = [(1, 0, 0)], normals = []\<rparr>" binary64 stable_argsort "[]" 0 0 True]
  by simp

section \<open>Bin cap\<close>

text \<open>
  C1. For a cloud with as many colours as points and at least one point, every bin capacity
  \<open>k \<ge> 1\<close> and every permutation that the shuffle may produce, the output is gathered at
  distinct indices of the input, and every quantised colour contributes exactly the minimum of
  \<open>k\<close> and the number of input points of that colour: never more than \<open>k\<close>, and all of them
  when there are fewer. So the output has at most as many points as the input, and at most
  \<open>k\<close> times the number of distinct quantised colours.
\<close>

theorem bin_cap_property:
  assumes "is_argsort argsort"
    and "mset shuffled_indices = mset [0..<length (points pcd)]"
    and "points pcd \<noteq> []"
    and "length (colors pcd) = length (points pcd)"
    and "1 \<le> k"
  shows "\<exists>idx.
      prism_sampling fl argsort shuffled_indices pcd k quantization use_chromaticity
        = Inr \<lparr>points = map (\<lambda>i. points pcd ! i) idx,
               colors = map (\<lambda>i. colors pcd ! i) idx,
               normals = (if has_normals pcd then map (\<lambda>i. normals pcd ! i) idx else [])\<rparr> \<and>
      distinct idx \<and> set idx \<subseteq> {0..<length (points pcd)} \<and>
      (\<forall>t. length (filter (\<lambda>i. colors_quant fl use_chromaticity quantization (colors pcd ! i) = t) idx)
          = min (nat k)
              (length (filter (\<lambda>c. colors_quant fl use_chromaticity quantization c = t) (colors pcd)))) \<and>
      length idx \<le> length (points pcd) \<and>
      length idx \<le> card (colors_quant fl use_chromaticity quantization ` set (colors pcd)) * nat k"
proof -
  let ?f = "\<lambda>i. colors_quant fl use_chromaticity quantization (colors pcd ! i)"
  from sampling_structure [OF assms(1,2,3), where fl = fl and k = k and q = quantization and uc = use_chromaticity] assms(4)
  obtain idx where res: "prism_sampling fl argsort shuffled_indices pcd k quantization use_chromaticity
        = Inr \<lparr>points = map (\<lambda>i. points pcd ! i) idx,
               colors = map (\<lambda>i. colors pcd ! i) idx,
               normals = (if has_normals pcd then map (\<lambda>i. normals pcd ! i) idx else [])\<rparr>"
    and dist: "distinct idx" and sub: "set idx \<subseteq> {0..<length (points pcd)}"
    and cnt: "\<And>t. length (filter (\<lambda>i. ?f i = t) idx)
          = min (nat k)
              (length (filter (\<lambda>c. colors_quant fl use_chromaticity quantization c = t) (colors pcd)))"
    by auto
  have "card (set idx) \<le> card {0..<length (points pcd)}" by (rule card_mono) (use sub in auto)
  then have l1: "length idx \<le> length (points pcd)" using dist by (simp add: distinct_card)
  have "?f ` set idx \<subseteq> colors_quant fl use_chromaticity quantization ` set (colors pcd)"
    using sub assms(4) by auto
  then have l2: "length idx \<le> card (colors_quant fl use_chromaticity quantization ` set (colors pcd)) * nat k"
    by (intro length_le_bins [where f = ?f]) (simp_all add: cnt)
  show ?thesis using res dist sub cnt l1 l2 by blast
qed

theorem bin_cap_property_witness:
  "\<exists>idx.
      prism_sampling binary64 stable_argsort [3, 5, 0, 2, 1, 4] example_cloud 2 1 True
        = Inr \<lparr>points = map (\<lambda>i. points example_cloud ! i) idx,
               colors = map (\<lambda>i. colors example_cloud ! i) idx,
               normals = (if has_normals example_cloud then map (\<lambda>i. normals example_cloud ! i) idx else [])\<rparr> \<and>
      distinct idx \<and> set idx \<subseteq> {0..<length (points example_cloud)} \<and>
      (\<forall>t. length (filter (\<lambda>i. colors_quant binary64 True 1 (colors example_cloud ! i) = t) idx)
          = min (nat 2) (length (filter (\<lambda>c. colors_quant binary64 True 1 c = t) (colors example_cloud)))) \<and>
      length idx \<le> length (points example_cloud) \<and>
      length idx \<le> card (colors_quant binary64 True 1 ` set (colors example_cloud)) * nat 2"
proof -
  have "sort [3, 5, 0, 2, 1, 4] = [0..<length (points example_cloud)]"
    by code_simp
  then have 1: "mset [3, 5, 0, 2, 1, 4] = mset [0..<length (points example_cloud)]"
    by (rule perm_by_sort)
  have 2: "points example_cloud \<noteq> []" by (simp add: example_cloud_def)
  have 3: "length (colors example_cloud) = length (points example_cloud)"
    by (simp add: example_cloud_def)
  have 4: "(1::int) \<le> 2" by simp
  show ?thesis by (rule bin_cap_property [OF stable_argsort_ok 1 2 3 4])
qed

section \<open>Subset property\<close>



section \<open>Invalid configuration\<close>




section \<open>Grouping\<close>

text \<open>
  C5. The grouping lists every input index exactly once, so every point is in exactly one
  group; two points are in the same group if and only if their quantised colour triples are
  equal, whatever the shuffle and the sort order among equal keys are, so membership does
  not depend on the order of the points; and two packed keys are equal if and only if the
  triples are.
\<close>

theorem grouping_partitions_by_key:
  assumes "is_argsort argsort"
    and "mset shuffled_indices = mset [0..<length cs]"
  shows "\<exists>gs.
      grouping argsort shuffled_indices (map (\<lambda>c. pack (colors_quant fl use_chromaticity quantization c)) cs)
        = Inr gs \<and>
      mset (map fst gs) = mset [0..<length cs] \<and>
      (\<forall>i j. same_group gs i j \<longleftrightarrow>
         i < length cs \<and> j < length cs \<and>
         colors_quant fl use_chromaticity quantization (cs ! i)
           = colors_quant fl use_chromaticity quantization (cs ! j)) \<and>
      (\<forall>s t. pack s = pack t \<longleftrightarrow> s = t)"
proof -
  define n where "n = length cs"
  define ks where "ks = map (\<lambda>c. pack (colors_quant fl use_chromaticity quantization c)) cs"
  define order where "order = argsort (map (\<lambda>i. ks ! i) shuffled_indices)"
  define g where "g = (\<lambda>p. shuffled_indices ! (order ! p))"
  define xs where "xs = map (\<lambda>p. ks ! g p) [0..<n]"
  define gs where "gs = map (\<lambda>p. (g p, first_index xs (ks ! g p))) [0..<n]"
  have sh: "mset shuffled_indices = mset [0..<n]" using assms(2) by (simp add: n_def)
  have len: "n \<le> length ks" by (simp add: ks_def n_def)
  have ord: "mset order = mset [0..<n]"
    unfolding order_def by (rule selection_structure(1) [OF assms(1) sh len])
  have sxs: "sorted xs"
    unfolding xs_def g_def order_def by (rule selection_structure(2) [OF assms(1) sh len])
  have sc: "sorted_colors_of argsort shuffled_indices ks = Inr (order, xs)"
    unfolding xs_def g_def order_def by (rule selection_structure(3) [OF assms(1) sh len])
  note shf = perm_upt_facts [OF sh] and ordf = perm_upt_facts [OF ord]
  have "\<forall>i \<in> set order. i < length shuffled_indices" using ordf shf by simp
  then have go: "gather shuffled_indices order = Inr (map (\<lambda>i. shuffled_indices ! i) order)"
    by (rule gather_Inr)
  have "map (\<lambda>p. order ! p) [0..<length order] = order" by (rule map_nth)
  then have "map (\<lambda>p. order ! p) [0..<n] = order" using ordf by simp
  then have "map (\<lambda>i. shuffled_indices ! i) (map (\<lambda>p. order ! p) [0..<n])
           = map (\<lambda>i. shuffled_indices ! i) order" by simp
  then have mo: "map (\<lambda>i. shuffled_indices ! i) order = map g [0..<n]"
    by (simp add: g_def comp_def)
  have "group_starts_expanded xs = map (first_index xs) xs"
    using sxs by (rule group_starts_expanded_sorted)
  also have "\<dots> = map (\<lambda>p. first_index xs (ks ! g p)) [0..<n]"
    by (simp add: xs_def comp_def)
  finally have gse: "group_starts_expanded xs = map (\<lambda>p. first_index xs (ks ! g p)) [0..<n]" .
  have 1: "grouping argsort shuffled_indices ks = Inr gs"
    using sc go by (simp add: grouping_def mo gse zip_maps gs_def)
  have pg: "mset (map g [0..<n]) = mset [0..<n]"
    unfolding g_def using ord sh by (rule perm_compose)
  have "map fst gs = map g [0..<n]" by (simp add: gs_def comp_def)
  then have 2: "mset (map fst gs) = mset [0..<n]" using pg by simp
  have img: "g ` {0..<n} = {0..<n}"
    using mset_eq_setD [OF pg] by simp
  have mo_i: "map_of gs i = (if i < n then Some (first_index xs (ks ! i)) else None)" for i
    using map_of_graph [of g "\<lambda>i. first_index xs (ks ! i)" "[0..<n]" i] img
    by (simp add: gs_def)
  have in_xs: "ks ! i \<in> set xs" if "i < n" for i
  proof -
    from that have "i \<in> g ` {0..<n}" using img by simp
    then obtain p where "p \<in> {0..<n}" "i = g p" by (rule imageE)
    then show ?thesis by (auto simp: xs_def)
  qed
  have 3: "same_group gs i j \<longleftrightarrow>
         i < n \<and> j < n \<and>
         colors_quant fl use_chromaticity quantization (cs ! i)
           = colors_quant fl use_chromaticity quantization (cs ! j)" for i j
  proof (cases "i < n \<and> j < n")
    case True
    then have "same_group gs i j \<longleftrightarrow> first_index xs (ks ! i) = first_index xs (ks ! j)"
      by (simp add: same_group_def mo_i)
    also have "\<dots> \<longleftrightarrow> ks ! i = ks ! j"
      using True by (intro first_index_eq_iff in_xs) simp_all
    also have "\<dots> \<longleftrightarrow> colors_quant fl use_chromaticity quantization (cs ! i)
           = colors_quant fl use_chromaticity quantization (cs ! j)"
      using True by (simp add: ks_def n_def pack_inj)
    finally show ?thesis using True by simp
  next
    case False
    then show ?thesis by (auto simp: same_group_def mo_i split: option.splits)
  qed
  show ?thesis using 1 2 3 pack_inj unfolding ks_def n_def by blast
qed

theorem grouping_partitions_by_key_witness:
  "grouping stable_argsort [3, 5, 0, 2, 1, 4]
      (map (\<lambda>c. pack (colors_quant binary64 True 1 c)) (colors example_cloud))
     = Inr [(3, 0), (5, 0), (1, 0), (0, 3), (2, 3), (4, 3)] \<and>
   (\<exists>gs.
      grouping stable_argsort [3, 5, 0, 2, 1, 4]
          (map (\<lambda>c. pack (colors_quant binary64 True 1 c)) (colors example_cloud)) = Inr gs \<and>
      mset (map fst gs) = mset [0..<length (colors example_cloud)] \<and>
      (\<forall>i j. same_group gs i j \<longleftrightarrow>
         i < length (colors example_cloud) \<and> j < length (colors example_cloud) \<and>
         colors_quant binary64 True 1 (colors example_cloud ! i) = colors_quant binary64 True 1 (colors example_cloud ! j)) \<and>
      (\<forall>s t. pack s = pack t \<longleftrightarrow> s = t))"
proof -
  have e: "grouping stable_argsort [3, 5, 0, 2, 1, 4]
      (map (\<lambda>c. pack (colors_quant binary64 True 1 c)) (colors example_cloud))
     = Inr [(3, 0), (5, 0), (1, 0), (0, 3), (2, 3), (4, 3)]"
    unfolding example_keys by code_simp
  have "length (colors example_cloud) = length (points example_cloud)"
    by (simp add: example_cloud_def)
  then have s: "mset [3, 5, 0, 2, 1, 4] = mset [0..<length (colors example_cloud)]"
    using example_shuffle by simp
  show ?thesis
    using e grouping_partitions_by_key [OF stable_argsort_ok s, where fl = binary64 and use_chromaticity = True and quantization = 1] by blast
qed

section \<open>Frame\<close>




section \<open>Chromaticity mode divides by a positive number\<close>

text \<open>
  C9. For a colour with components between 0 and 1, pure black included, the float that
  the program computes for the sum of the components plus \<^verbatim>\<open>1e-6\<close> is finite and
  positive; so each of the three divisions of the chromaticity mode is the rounded
  quotient by a positive number, never a division by zero, and the three values to bin
  are finite.
\<close>

theorem no_division_by_zero:
  assumes "0 \<le> r" and "r \<le> 1" and "0 \<le> g" and "g \<le> 1" and "0 \<le> b" and "b \<le> 1"
  shows "\<exists>s. sum_colors binary64 (r, g, b) = Some s \<and> 0 < s \<and>
     normalized_colors binary64 (r, g, b) = (binary64 (r / s), binary64 (g / s), binary64 (b / s)) \<and>
     (\<exists>x y z. colors_to_bin binary64 True (r, g, b) = (Some x, Some y, Some z))"
proof -
  from sum_colors_valid [OF assms]
  obtain s where s: "sum_colors binary64 (r, g, b) = Some s" "1 / 2 ^ 21 \<le> s" by auto
  have pos: "0 < s" using s(2) by (rule less_le_trans [rotated]) simp
  have n: "normalized_colors binary64 (r, g, b) = (binary64 (r / s), binary64 (g / s), binary64 (b / s))"
    using pos by (simp add: normalized_colors_def s np_div_def)
  from chroma_component [OF assms(1,2) s(2)]
  obtain nr x where x: "binary64 (r / s) = Some nr" "binary64 (nr * 255) = Some x" by auto
  from chroma_component [OF assms(3,4) s(2)]
  obtain ng y where y: "binary64 (g / s) = Some ng" "binary64 (ng * 255) = Some y" by auto
  from chroma_component [OF assms(5,6) s(2)]
  obtain nb z where z: "binary64 (b / s) = Some nb" "binary64 (nb * 255) = Some z" by auto
  have "colors_to_bin binary64 True (r, g, b) = (Some x, Some y, Some z)"
    by (simp add: colors_to_bin_def n x y z np_mul_def)
  with s(1) pos n show ?thesis by blast
qed

theorem no_division_by_zero_witness:
  "(0 :: real) \<le> 0 \<and> (0 :: real) \<le> 1 \<and>
   (\<exists>s. sum_colors binary64 (0, 0, 0) = Some s \<and> 0 < s \<and>
     normalized_colors binary64 (0, 0, 0) = (binary64 (0 / s), binary64 (0 / s), binary64 (0 / s)) \<and>
     (\<exists>x y z. colors_to_bin binary64 True (0, 0, 0) = (Some x, Some y, Some z)))"
  using no_division_by_zero [of 0 0 0] by simp

section \<open>A bin capacity below one\<close>

text \<open>
  C10. For a cloud with at least one point and a colour for every point, and a bin
  capacity \<open>k \<le> 0\<close>, the sampler raises nothing and returns a cloud without points:
  no counter is below \<open>k\<close>.
\<close>

theorem nonpositive_k_empty_output:
  assumes "is_argsort argsort"
    and "mset shuffled_indices = mset [0..<length (points pcd)]"
    and "points pcd \<noteq> []"
    and "length (points pcd) \<le> length (colors pcd)"
    and "k \<le> 0"
  shows "prism_sampling fl argsort shuffled_indices pcd k quantization use_chromaticity
       = Inr \<lparr>points = [], colors = [], normals = []\<rparr>"
proof -
  let ?f = "\<lambda>i. colors_quant fl use_chromaticity quantization (colors pcd ! i)"
  from sampling_structure [OF assms(1-4), where fl = fl and k = k and q = quantization and uc = use_chromaticity]
  obtain idx where res: "prism_sampling fl argsort shuffled_indices pcd k quantization use_chromaticity
        = Inr \<lparr>points = map (\<lambda>i. points pcd ! i) idx,
               colors = map (\<lambda>i. colors pcd ! i) idx,
               normals = (if has_normals pcd then map (\<lambda>i. normals pcd ! i) idx else [])\<rparr>"
    and cnt: "\<And>t. length (filter (\<lambda>i. ?f i = t) idx)
          = min (nat k)
              (length (filter (\<lambda>c. colors_quant fl use_chromaticity quantization c = t)
                 (take (length (points pcd)) (colors pcd))))"
    by auto
  have "idx = []"
  proof (rule ccontr)
    assume "idx \<noteq> []"
    then obtain j js where "idx = j # js" by (cases idx) auto
    then have "0 < length (filter (\<lambda>i. ?f i = ?f j) idx)" by simp
    moreover have "length (filter (\<lambda>i. ?f i = ?f j) idx) = 0"
      using cnt [of "?f j"] assms(5) by simp
    ultimately show False by simp
  qed
  with res show ?thesis by simp
qed

theorem nonpositive_k_empty_output_witness:
  "prism_sampling binary64 stable_argsort [3, 5, 0, 2, 1, 4] example_cloud (- 3) 1 True
       = Inr \<lparr>points = [], colors = [], normals = []\<rparr>"
proof -
  have 2: "points example_cloud \<noteq> []" by (simp add: example_cloud_def)
  have 3: "length (points example_cloud) \<le> length (colors example_cloud)"
    by (simp add: example_cloud_def)
  have 4: "(- 3 :: int) \<le> 0" by simp
  show ?thesis by (rule nonpositive_k_empty_output [OF stable_argsort_ok example_shuffle 2 3 4])
qed

section \<open>Determinism under a fixed state of the random generator\<close>



section \<open>Chromaticity invariance\<close>



end
